theory Spec2Isabelle
  imports Main
begin

section \<open>Strings and character classes\<close>

text \<open>
  A Python \<open>str\<close> is modelled as a \<open>string\<close>: the character with number \<open>n\<close> stands for
  the code point \<open>n\<close>, so the model covers the strings whose code points are below 256.
  On these code points the classes below are the ones Python uses:
  \<^item> \<open>str.strip()\<close>, \<open>str.split()\<close> and \<open>\s\<close> share one whitespace test, true of
    9..13, 28..32, 133 and 160;
  \<^item> \<open>\d\<close> is true of the decimal digits \<open>0\<close>..\<open>9\<close> only;
  \<^item> \<open>[A-Z]\<close> is true of the 26 capital letters, and under \<open>re.IGNORECASE\<close> of the 26
    small letters too.

  Above 255 Python's \<open>\d\<close> is also true of the other Unicode decimal digits, and
  \<open>[A-Z]\<close> under \<open>re.IGNORECASE\<close> of four more letters (U+0130, U+0131, U+017F and
  U+212A); sentences with such characters are outside the model.
\<close>

definition is_space :: "char \<Rightarrow> bool" where
  "is_space c = (let n = (of_char c :: nat) in
     (9 \<le> n \<and> n \<le> 13) \<or> (28 \<le> n \<and> n \<le> 32) \<or> n = 133 \<or> n = 160)"

definition is_upper_AZ :: "char \<Rightarrow> bool" where
  "is_upper_AZ c = (let n = (of_char c :: nat) in 65 \<le> n \<and> n \<le> 90)"

definition is_lower_az :: "char \<Rightarrow> bool" where
  "is_lower_az c = (let n = (of_char c :: nat) in 97 \<le> n \<and> n \<le> 122)"

definition is_letter_ic :: "char \<Rightarrow> bool" where
  "is_letter_ic c = (is_upper_AZ c \<or> is_lower_az c)"

definition is_digit :: "char \<Rightarrow> bool" where
  "is_digit c = (let n = (of_char c :: nat) in 48 \<le> n \<and> n \<le> 57)"

definition newline :: char where
  "newline = CHR 0x0A"

text \<open>\<open>s.lstrip()\<close>, \<open>s.rstrip()\<close>, \<open>s.strip()\<close> and \<open>s.rstrip(chars)\<close>.\<close>

definition lstrip :: "string \<Rightarrow> string" where
  "lstrip s = dropWhile is_space s"

definition rstrip :: "string \<Rightarrow> string" where
  "rstrip s = rev (dropWhile is_space (rev s))"

definition strip :: "string \<Rightarrow> string" where
  "strip s = rstrip (lstrip s)"

definition rstrip_chars :: "string \<Rightarrow> string \<Rightarrow> string" where
  "rstrip_chars chars s = rev (dropWhile (\<lambda>c. c \<in> set chars) (rev s))"

text \<open>
  \<open>s.split()\<close> with no argument: the maximal runs of characters that are not whitespace,
  in order; an all-whitespace string gives the empty list.
\<close>

function py_split :: "string \<Rightarrow> string list" where
  "py_split s =
     (let t = dropWhile is_space s in
      if t = [] then []
      else takeWhile (\<lambda>c. \<not> is_space c) t # py_split (dropWhile (\<lambda>c. \<not> is_space c) t))"
  by pat_completeness auto
termination
proof (relation "measure length")
  show "wf (measure length)" by simp
next
  fix s t :: string
  assume t: "t = dropWhile is_space s" and ne: "t \<noteq> []"
  have "\<not> is_space (hd t)"
    using t ne hd_dropWhile by metis
  then have "length (dropWhile (\<lambda>c. \<not> is_space c) t) < length t"
    using ne by (cases t) (simp_all add: le_imp_less_Suc length_dropWhile_le)
  also have "length t \<le> length s"
    using t by (simp add: length_dropWhile_le)
  finally show "(dropWhile (\<lambda>c. \<not> is_space c) t, s) \<in> measure length"
    by simp
qed

declare py_split.simps [simp del]

section \<open>The two regular expressions\<close>

subsection \<open>\<open>COURSE_CODE_RE = [A-Z]{2,4} \d+[A-Z]*\<close>\<close>

text \<open>
  One attempt of the matcher at the head of \<open>s\<close> with the department taking exactly \<open>k\<close>
  letters: \<open>k\<close> capitals, a space, the longest run of digits (at least one), the longest
  run of capitals. The result is the matched text and the text after it. Nothing follows
  \<open>[A-Z]*\<close> in the pattern, so the greedy choice for the digits and the suffix is final.
\<close>

definition match_code_with :: "nat \<Rightarrow> string \<Rightarrow> (string \<times> string) option" where
  "match_code_with k s =
     (if k \<le> length s \<and> list_all is_upper_AZ (take k s) then
        (case drop k s of
           [] \<Rightarrow> None
         | sp # r \<Rightarrow>
             if sp = CHR '' '' \<and> takeWhile is_digit r \<noteq> [] then
               Some (take k s @ [sp] @ takeWhile is_digit r
                       @ takeWhile is_upper_AZ (dropWhile is_digit r),
                     dropWhile is_upper_AZ (dropWhile is_digit r))
             else None)
      else None)"

text \<open>The greedy \<open>{2,4}\<close>: four letters first, then three, then two.\<close>

definition match_code :: "string \<Rightarrow> (string \<times> string) option" where
  "match_code s =
     (case match_code_with 4 s of
        Some r \<Rightarrow> Some r
      | None \<Rightarrow>
          (case match_code_with 3 s of
             Some r \<Rightarrow> Some r
           | None \<Rightarrow> match_code_with 2 s))"

lemma match_code_with_shorter:
  "match_code_with k s = Some (m, rest) \<Longrightarrow> length rest < length s"
proof -
  assume a: "match_code_with k s = Some (m, rest)"
  then obtain sp r where d: "drop k s = sp # r"
    and rest: "rest = dropWhile is_upper_AZ (dropWhile is_digit r)"
    by (auto simp: match_code_with_def split: if_splits list.splits)
  have "length rest \<le> length r"
    unfolding rest
    by (meson length_dropWhile_le order_trans)
  also have "length r < length (drop k s)"
    by (simp add: d)
  also have "\<dots> \<le> length s"
    by simp
  finally show ?thesis .
qed

lemma match_code_shorter:
  "match_code s = Some (m, rest) \<Longrightarrow> length rest < length s"
  by (auto simp: match_code_def split: option.splits dest: match_code_with_shorter)

text \<open>
  \<open>COURSE_CODE_RE.finditer(text)\<close>: the matches from left to right, the search resuming
  where the last match ended (a match is never empty).
\<close>

function finditer_code :: "string \<Rightarrow> string list" where
  "finditer_code [] = []"
| "finditer_code (c # cs) =
     (case match_code (c # cs) of
        Some (m, rest) \<Rightarrow> m # finditer_code rest
      | None \<Rightarrow> finditer_code cs)"
  by pat_completeness auto
termination
  by (relation "measure length") (auto dest: match_code_shorter)

text \<open>
  \<open>re.sub(r"[.,;]+$", "", code)\<close>: the run of \<open>.\<close>, \<open>,\<close>, \<open>;\<close> that ends the string is
  removed. Python's \<open>$\<close> also matches just before a newline that ends the string, so the
  run may stand before one final newline, which is kept.
\<close>

definition sub_trailing_punct :: "string \<Rightarrow> string" where
  "sub_trailing_punct s =
     (if s \<noteq> [] \<and> last s = newline
      then rstrip_chars ''.,;'' (butlast s) @ [newline]
      else rstrip_chars ''.,;'' s)"

subsection \<open>\<open>extract_course_codes\<close>\<close>

text \<open>The loop over the matches, with the list \<open>codes\<close> it appends to.\<close>

fun collect_codes :: "string list \<Rightarrow> string list \<Rightarrow> string list" where
  "collect_codes [] codes = codes"
| "collect_codes (m # ms) codes =
     (let code = sub_trailing_punct (strip m) in
      if code \<noteq> [] \<and> code \<notin> set codes
      then collect_codes ms (codes @ [code])
      else collect_codes ms codes)"

definition extract_course_codes :: "string \<Rightarrow> string list" where
  "extract_course_codes text = collect_codes (finditer_code text) []"

subsection \<open>\<open>STANDALONE_NUM_RE = ^\d+[A-Z]?$\<close> with \<open>re.IGNORECASE\<close>\<close>

text \<open>
  \<open>STANDALONE_NUM_RE.match(t)\<close>, as a truth value: the longest run of digits (at least
  one), then a letter of either case when there is one, then the end of the string, or
  one newline that ends it. Giving back a digit or the letter cannot help the match: the
  character it would leave before \<open>$\<close> is neither the end nor a newline.
\<close>

definition standalone_num_match :: "string \<Rightarrow> bool" where
  "standalone_num_match t =
     (let r = dropWhile is_digit t;
          r' = (case r of [] \<Rightarrow> r | c # cs \<Rightarrow> if is_letter_ic c then cs else r)
      in takeWhile is_digit t \<noteq> [] \<and> (r' = [] \<or> r' = [newline]))"

section \<open>\<open>parse_prereq_raw\<close>\<close>

text \<open>\<open>re.sub(r"\s+", " ", text)\<close>: every maximal run of whitespace becomes one space.\<close>

function collapse_ws :: "string \<Rightarrow> string" where
  "collapse_ws [] = []"
| "collapse_ws (c # cs) =
     (if is_space c then CHR '' '' # collapse_ws (dropWhile is_space cs)
      else c # collapse_ws cs)"
  by pat_completeness auto
termination
  by (relation "measure length") (auto simp: le_imp_less_Suc length_dropWhile_le)

text \<open>
  One attempt of \<open>\s+and\s+\<close> (ignoring case) at the head of \<open>s\<close>; the result is the
  text after the match. The first \<open>\s+\<close> takes the whole run of whitespace: with fewer,
  the next character would be whitespace and not the letter \<open>a\<close>.
\<close>

definition match_and :: "string \<Rightarrow> string option" where
  "match_and s =
     (if takeWhile is_space s = [] then None
      else
        (case dropWhile is_space s of
           a # n # d # r \<Rightarrow>
             if (a = CHR ''a'' \<or> a = CHR ''A'') \<and> (n = CHR ''n'' \<or> n = CHR ''N'')
                 \<and> (d = CHR ''d'' \<or> d = CHR ''D'') \<and> takeWhile is_space r \<noteq> []
             then Some (dropWhile is_space r)
             else None
         | _ \<Rightarrow> None))"

lemma match_and_shorter:
  "match_and s = Some rest \<Longrightarrow> length rest < length s"
proof -
  assume a: "match_and s = Some rest"
  then obtain a n d r where d: "dropWhile is_space s = a # n # d # r"
    and rest: "rest = dropWhile is_space r"
    by (auto simp: match_and_def split: if_splits list.splits)
  have "length rest \<le> length r"
    unfolding rest by (rule length_dropWhile_le)
  also have "length r < length (dropWhile is_space s)"
    by (simp add: d)
  also have "\<dots> \<le> length s"
    by (rule length_dropWhile_le)
  finally show ?thesis .
qed

text \<open>
  \<open>re.split(r"\s+and\s+", text, flags=re.IGNORECASE)\<close>: the pieces between the matches,
  found from left to right; \<open>seg\<close> is the piece read so far.
\<close>

function re_split_and :: "string \<Rightarrow> string \<Rightarrow> string list" where
  "re_split_and seg [] = [seg]"
| "re_split_and seg (c # cs) =
     (case match_and (c # cs) of
        Some rest \<Rightarrow> seg # re_split_and [] rest
      | None \<Rightarrow> re_split_and (seg @ [c]) cs)"
  by pat_completeness auto
termination
  by (relation "measure (\<lambda>(seg, s). length s)") (auto dest: match_and_shorter)

datatype py_error = IndexError

text \<open>The state of the loop over the segments: \<open>result\<close> and \<open>last_dept\<close>.\<close>

type_synonym parse_state = "string list list \<times> string option"

text \<open>
  The body of the loop for one segment. \<open>codes[-1].split()[0]\<close> raises \<open>IndexError\<close>
  when the split is empty.
\<close>

definition parse_segment :: "parse_state \<Rightarrow> string \<Rightarrow> py_error + parse_state" where
  "parse_segment st seg =
     (case st of (result, last_dept) \<Rightarrow>
        let segment = strip seg in
        if segment = [] then Inr (result, last_dept)
        else
          let codes = extract_course_codes segment;
              codes =
                (case last_dept of
                   None \<Rightarrow> codes
                 | Some dept \<Rightarrow>
                     if codes = [] \<and> dept \<noteq> []
                         \<and> standalone_num_match (rstrip_chars ''.,;'' segment)
                     then [dept @ '' '' @ strip (rstrip_chars ''.,;'' segment)]
                     else codes)
          in
            if codes \<noteq> [] then
              (case py_split (last codes) of
                 [] \<Rightarrow> Inl IndexError
               | d # _ \<Rightarrow> Inr (result @ [codes], Some d))
            else Inr (result, last_dept))"

fun parse_loop :: "string list \<Rightarrow> parse_state \<Rightarrow> py_error + parse_state" where
  "parse_loop [] st = Inr st"
| "parse_loop (seg # segs) st =
     (case parse_segment st seg of
        Inl e \<Rightarrow> Inl e
      | Inr st' \<Rightarrow> parse_loop segs st')"

definition parse_prereq_raw :: "string option \<Rightarrow> py_error + string list list" where
  "parse_prereq_raw raw =
     (case raw of
        None \<Rightarrow> Inr []
      | Some r \<Rightarrow>
          if r = [] \<or> strip r = [] then Inr []
          else
            let text = strip r;
                text = (if CHR '';'' \<in> set text
                        then strip (takeWhile (\<lambda>c. c \<noteq> CHR '';'') text)
                        else text);
                text = collapse_ws text;
                and_segments = re_split_and [] text
            in
              (case parse_loop and_segments ([], None) of
                 Inl e \<Rightarrow> Inl e
               | Inr (result, last_dept) \<Rightarrow> Inr result))"

section \<open>\<open>build_prereq_edges\<close>\<close>

text \<open>
  A course is the dictionary read from the catalog: \<open>code\<close>, \<open>prereq_raw\<close> (or
  \<open>None\<close>) and, once enriched, \<open>prereq_structured\<close> (\<open>None\<close> while the key is absent).
\<close>

record course =
  code :: string
  prereq_raw :: "string option"
  prereq_structured :: "string list list option"

record edge =
  source :: string
  target :: string
  or_group_index :: nat

text \<open>\<open>code_to_course = {c["code"]: c for c in courses}\<close>: a later course replaces an
  earlier one with the same code.\<close>

definition code_to_course :: "course list \<Rightarrow> (string \<rightharpoonup> course)" where
  "code_to_course courses = foldl (\<lambda>m c. m(code c \<mapsto> c)) Map.empty courses"

fun edges_of_tuple :: "(string \<rightharpoonup> course) \<Rightarrow> string \<Rightarrow> nat \<Rightarrow> string list \<Rightarrow> edge list" where
  "edges_of_tuple known tgt i [] = []"
| "edges_of_tuple known tgt i (src # or_tuple) =
     (if known src \<noteq> None
      then \<lparr>source = src, target = tgt, or_group_index = i\<rparr> # edges_of_tuple known tgt i or_tuple
      else edges_of_tuple known tgt i or_tuple)"

fun edges_of_structured ::
  "(string \<rightharpoonup> course) \<Rightarrow> string \<Rightarrow> nat \<Rightarrow> string list list \<Rightarrow> edge list" where
  "edges_of_structured known tgt i [] = []"
| "edges_of_structured known tgt i (or_tuple # structured) =
     edges_of_tuple known tgt i or_tuple @ edges_of_structured known tgt (Suc i) structured"

text \<open>\<open>course.get("prereq_structured") or []\<close>.\<close>

definition structured_or_empty :: "course \<Rightarrow> string list list" where
  "structured_or_empty c =
     (case prereq_structured c of None \<Rightarrow> [] | Some structured \<Rightarrow> structured)"

fun edges_of_courses :: "(string \<rightharpoonup> course) \<Rightarrow> course list \<Rightarrow> edge list" where
  "edges_of_courses known [] = []"
| "edges_of_courses known (c # cs) =
     edges_of_structured known (code c) 0 (structured_or_empty c)
     @ edges_of_courses known cs"

text \<open>
  The three nested loops are \<open>edges_of_tuple\<close> (over the codes of one OrGroup),
  \<open>edges_of_structured\<close> (the \<open>enumerate\<close> over the groups, with its counter) and
  \<open>edges_of_courses\<close>; each returns the edges it appends, in order.
\<close>

definition build_prereq_edges :: "course list \<Rightarrow> edge list" where
  "build_prereq_edges courses = edges_of_courses (code_to_course courses) courses"

section \<open>Notions of the specification\<close>

text \<open>
  Keeping the first occurrence of every element, in order of first occurrence: the head
  stays, and its later copies are removed from the rest.
\<close>

fun keep_first :: "'a list \<Rightarrow> 'a list" where
  "keep_first [] = []"
| "keep_first (x # xs) = x # keep_first (filter (\<lambda>y. y \<noteq> x) xs)"

text \<open>
  The CourseCode grammar of the specification, as a test on a string: a department of 2 to
  4 capitals, one space, one or more digits, then capitals only (possibly none).
\<close>

definition dept_ok :: "string \<Rightarrow> bool" where
  "dept_ok d = (2 \<le> length d \<and> length d \<le> 4 \<and> list_all is_upper_AZ d)"

definition CourseCode :: "string \<Rightarrow> bool" where
  "CourseCode s =
     (dept_ok (takeWhile is_upper_AZ s) \<and>
      (case dropWhile is_upper_AZ s of
         [] \<Rightarrow> False
       | sp # r \<Rightarrow>
           sp = CHR '' '' \<and> takeWhile is_digit r \<noteq> []
           \<and> list_all is_upper_AZ (dropWhile is_digit r)))"

text \<open>
  The department of a code: its leading capitals.
\<close>

definition dept_of :: "string \<Rightarrow> string" where
  "dept_of c = takeWhile is_upper_AZ c"

text \<open>
  The one other form a code of the output can take. \<open>ShorthandCode dept c\<close>: the code
  \<open>c\<close> is the department \<open>dept\<close>, one space, one or more digits and exactly one small
  letter.
\<close>

definition ShorthandCode :: "string \<Rightarrow> string \<Rightarrow> bool" where
  "ShorthandCode dept c =
     (dept_ok dept \<and> takeWhile is_upper_AZ c = dept \<and>
      (case dropWhile is_upper_AZ c of
         [] \<Rightarrow> False
       | sp # r \<Rightarrow>
           sp = CHR '' '' \<and> takeWhile is_digit r \<noteq> []
           \<and> length (dropWhile is_digit r) = 1
           \<and> list_all is_lower_az (dropWhile is_digit r)))"

text \<open>
  The form of a whole structure, read from its first group on; \<open>prev\<close> is the department
  of the last code of the group before, if there is one. Every group is non-empty, and
  either all its codes meet the CourseCode grammar, or it is a single \<open>ShorthandCode\<close>
  whose department is \<open>prev\<close>; so the first group always meets the grammar.
\<close>

fun groups_ok :: "string option \<Rightarrow> string list list \<Rightarrow> bool" where
  "groups_ok prev [] = True"
| "groups_ok prev (g # gs) =
     (g \<noteq> []
      \<and> (list_all CourseCode g
           \<or> (case prev of
                 None \<Rightarrow> False
               | Some dept \<Rightarrow> length g = 1 \<and> ShorthandCode dept (hd g)))
      \<and> groups_ok (Some (dept_of (last g))) gs)"

section \<open>Invariants of the loop over the segments\<close>

text \<open>
  \<open>code_shape\<close> is what the loop needs to know of a code to show that
  \<open>codes[-1].split()[0]\<close> exists: a department, a space, digits, and then capitals or one
  small letter. It is weaker than the forms above and serves the proofs only.
\<close>

definition code_shape :: "string \<Rightarrow> bool" where
  "code_shape s =
     (dept_ok (takeWhile is_upper_AZ s) \<and>
      (case dropWhile is_upper_AZ s of
         [] \<Rightarrow> False
       | sp # r \<Rightarrow>
           sp = CHR '' '' \<and> takeWhile is_digit r \<noteq> []
           \<and> (list_all is_upper_AZ (dropWhile is_digit r)
                \<or> length (dropWhile is_digit r) = 1 \<and> list_all is_lower_az (dropWhile is_digit r))))"

text \<open>
  \<open>state_ok\<close>: every code collected so far has this shape, and the department carried
  over is a department. \<open>dept_tracked\<close>: the department carried over is the first word of
  the last code of the last group, and there is none before the first group.
  \<open>grammar_inv\<close>: the groups collected so far have the form \<open>groups_ok\<close>, and the
  department carried over is the department of the last code of the last group.
\<close>

definition state_ok :: "parse_state \<Rightarrow> bool" where
  "state_ok st =
     (case st of (result, last_dept) \<Rightarrow>
        list_all (list_all code_shape) result
        \<and> (case last_dept of None \<Rightarrow> True | Some d \<Rightarrow> dept_ok d))"

definition dept_tracked :: "parse_state \<Rightarrow> bool" where
  "dept_tracked st =
     (case st of (result, last_dept) \<Rightarrow>
        (if result = [] then last_dept = None
         else (case py_split (last (last result)) of
                 [] \<Rightarrow> False
               | d # _ \<Rightarrow> last_dept = Some d)))"


section \<open>Evaluation and basic facts\<close>

lemmas char_class_defs =
  is_space_def is_upper_AZ_def is_lower_az_def is_letter_ic_def is_digit_def newline_def

lemmas string_op_defs =
  lstrip_def rstrip_def strip_def rstrip_chars_def sub_trailing_punct_def

lemmas parser_defs =
  match_code_with_def match_code_def extract_course_codes_def standalone_num_match_def
  match_and_def parse_segment_def parse_prereq_raw_def

lemma semicolon_not_space: "\<not> is_space (CHR '';'')"
  by (simp add: is_space_def)

lemma strip_blank: "list_all is_space s \<Longrightarrow> strip s = []"
proof -
  assume "list_all is_space s"
  then have 1: "dropWhile is_space s = []"
    by (simp add: list_all_iff)
  show ?thesis
    unfolding strip_def lstrip_def rstrip_def 1 by simp
qed

lemma parse_segment_blank: "list_all is_space seg \<Longrightarrow> parse_segment st seg = Inr st"
  by (simp add: parse_segment_def strip_blank split: prod.splits)

lemma lstrip_append_nonspace:
  "\<not> is_space c \<Longrightarrow> lstrip (x @ c # y) = lstrip x @ c # y"
  by (induction x) (simp_all add: lstrip_def)

lemma rstrip_append_nonspace:
  "\<not> is_space c \<Longrightarrow> rstrip (x @ c # y) = x @ c # rstrip y"
proof -
  assume c: "\<not> is_space c"
  have "dropWhile is_space (rev y @ c # rev x) = dropWhile is_space (rev y) @ c # rev x"
    using c by (induction "rev y" arbitrary: y) (simp_all add: dropWhile_append)
  then show ?thesis by (simp add: rstrip_def)
qed

lemma strip_around_semicolon:
  "strip (x @ CHR '';'' # y) = lstrip x @ CHR '';'' # rstrip y"
  by (simp add: strip_def lstrip_append_nonspace rstrip_append_nonspace semicolon_not_space)

lemma set_lstrip: "set (lstrip x) \<subseteq> set x"
  by (simp add: lstrip_def set_dropWhileD subsetI)

lemma truncated_text:
  assumes "CHR '';'' \<notin> set x"
  shows "strip (takeWhile (\<lambda>c. c \<noteq> CHR '';'') (strip (x @ CHR '';'' # y))) = strip x"
proof -
  have "CHR '';'' \<notin> set (lstrip x)"
    using assms set_lstrip by blast
  then have "takeWhile (\<lambda>c. c \<noteq> CHR '';'') (lstrip x @ CHR '';'' # rstrip y) = lstrip x"
    by (simp add: takeWhile_append)  
  moreover have "strip (lstrip x) = strip x"
    by (simp add: strip_def lstrip_def)
  ultimately show ?thesis
    by (simp add: strip_around_semicolon)
qed

lemma set_strip: "set (strip x) \<subseteq> set x"
  unfolding strip_def rstrip_def lstrip_def
  by (metis (no_types, lifting) set_dropWhileD set_rev subsetI)

lemma strip_nonempty_raw: "strip (x @ CHR '';'' # y) \<noteq> []"
  by (simp add: strip_around_semicolon)

lemma parse_blank_text: "parse_loop (re_split_and [] (collapse_ws [])) ([], None) = Inr ([], None)"
  by (simp add: parse_segment_blank)

lemma collect_codes_keep_first:
  "collect_codes ms codes =
     codes @ keep_first (filter (\<lambda>c. c \<notin> set codes)
        (filter (\<lambda>c. c \<noteq> []) (map (\<lambda>m. sub_trailing_punct (strip m)) ms)))"
proof (induction ms arbitrary: codes)
  case Nil
  then show ?case by simp
next
  case (Cons m ms)
  let ?c = "sub_trailing_punct (strip m)"
  let ?X = "filter (\<lambda>c. c \<noteq> []) (map (\<lambda>m. sub_trailing_punct (strip m)) ms)"
  show ?case
  proof (cases "?c \<noteq> [] \<and> ?c \<notin> set codes")
    case True
    have A: "filter (\<lambda>c. c \<noteq> []) (map (\<lambda>m. sub_trailing_punct (strip m)) (m # ms)) = ?c # ?X"
      using True by simp
    have B: "filter (\<lambda>c. c \<notin> set codes) (?c # ?X) = ?c # filter (\<lambda>c. c \<notin> set codes) ?X"
      using True by simp
    have eq: "filter (\<lambda>y. y \<noteq> ?c) (filter (\<lambda>c. c \<notin> set codes) ?X)
       = filter (\<lambda>c. c \<notin> set (codes @ [?c])) ?X"
      by (auto intro: filter_cong)
    have "collect_codes (m # ms) codes = collect_codes ms (codes @ [?c])"
      using True by (simp add: Let_def)
    also have "\<dots> = (codes @ [?c]) @ keep_first (filter (\<lambda>c. c \<notin> set (codes @ [?c])) ?X)"
      by (rule Cons.IH)
    also have "\<dots> = codes @ keep_first (?c # filter (\<lambda>c. c \<notin> set codes) ?X)"
      by (simp only: eq [symmetric] keep_first.simps append_assoc append_Cons append_Nil)
    also have "\<dots> = codes @ keep_first (filter (\<lambda>c. c \<notin> set codes)
        (filter (\<lambda>c. c \<noteq> []) (map (\<lambda>m. sub_trailing_punct (strip m)) (m # ms))))"
      by (simp only: A B)
    finally show ?thesis .
  next
    case False
    have A: "filter (\<lambda>c. c \<notin> set codes)
        (filter (\<lambda>c. c \<noteq> []) (map (\<lambda>m. sub_trailing_punct (strip m)) (m # ms)))
        = filter (\<lambda>c. c \<notin> set codes) ?X"
      using False by auto
    have "collect_codes (m # ms) codes = collect_codes ms codes"
      using False by (auto simp: Let_def)
    also have "\<dots> = codes @ keep_first (filter (\<lambda>c. c \<notin> set codes) ?X)"
      by (rule Cons.IH)
    finally show ?thesis
      by (simp only: A)
  qed
qed

lemma set_keep_first: "set (keep_first xs) = set xs"
  by (induction xs rule: keep_first.induct) auto

lemma distinct_keep_first: "distinct (keep_first xs)"
  by (induction xs rule: keep_first.induct) (auto simp: set_keep_first)

subsection \<open>Character classes and the grammar\<close>

lemma upper_not_space: "is_upper_AZ c \<Longrightarrow> \<not> is_space c"
  by (auto simp: char_class_defs Let_def)
lemma lower_not_space: "is_lower_az c \<Longrightarrow> \<not> is_space c"
  by (auto simp: char_class_defs Let_def)
lemma digit_not_space: "is_digit c \<Longrightarrow> \<not> is_space c"
  by (auto simp: char_class_defs Let_def)
lemma upper_not_digit: "is_upper_AZ c \<Longrightarrow> \<not> is_digit c"
  by (auto simp: char_class_defs Let_def)
lemma lower_not_digit: "is_lower_az c \<Longrightarrow> \<not> is_digit c"
  by (auto simp: char_class_defs Let_def)
lemma lower_not_upper: "is_lower_az c \<Longrightarrow> \<not> is_upper_AZ c"
  by (auto simp: char_class_defs Let_def)
lemma space_char [simp]: "is_space (CHR '' '')" "\<not> is_upper_AZ (CHR '' '')" "\<not> is_digit (CHR '' '')"
  by (simp_all add: char_class_defs)
lemma newline_space [simp]: "is_space newline" "\<not> is_digit newline" "\<not> is_letter_ic newline"
  by (simp_all add: char_class_defs)
lemma upper_not_punct: "is_upper_AZ c \<Longrightarrow> c \<notin> set ''.,;'' \<and> c \<noteq> newline"
  by (auto simp: char_class_defs Let_def)
lemma digit_not_punct: "is_digit c \<Longrightarrow> c \<notin> set ''.,;'' \<and> c \<noteq> newline"
  by (auto simp: char_class_defs Let_def)

lemma CourseCode_imp_shape: "CourseCode s \<Longrightarrow> code_shape s"
  unfolding CourseCode_def code_shape_def
  by (cases "dropWhile is_upper_AZ s") auto

lemma code_shapeI:
  assumes "dept_ok d" "ds \<noteq> []" "list_all is_digit ds"
    and "list_all is_upper_AZ sfx \<or> length sfx = 1 \<and> list_all is_lower_az sfx"
  shows "code_shape (d @ CHR '' '' # ds @ sfx)"
proof -
  have d: "\<And>x. x \<in> set d \<Longrightarrow> is_upper_AZ x"
    using assms(1) by (simp add: dept_ok_def list_all_iff)
  have tw: "takeWhile is_upper_AZ (d @ CHR '' '' # ds @ sfx) = d"
    using d by (simp add: takeWhile_append2)
  have dw: "dropWhile is_upper_AZ (d @ CHR '' '' # ds @ sfx) = CHR '' '' # ds @ sfx"
    using d by (simp add: dropWhile_append2)
  have ds: "\<And>x. x \<in> set ds \<Longrightarrow> is_digit x"
    using assms(3) by (simp add: list_all_iff)
  have sfx: "\<And>x. x \<in> set sfx \<Longrightarrow> \<not> is_digit x"
    using assms(4) by (auto simp: list_all_iff upper_not_digit lower_not_digit)
  have "dropWhile is_digit sfx = sfx"
    using sfx by (cases sfx) auto
  then have dd: "dropWhile is_digit (ds @ sfx) = sfx"
    using ds by (simp add: dropWhile_append2)
  have td: "takeWhile is_digit (ds @ sfx) \<noteq> []"
    using ds assms(2) by (simp add: takeWhile_append2)
  show ?thesis
    unfolding code_shape_def tw dw using assms(1,4) td dd by simp
qed

lemma CourseCodeI:
  assumes "dept_ok d" "ds \<noteq> []" "list_all is_digit ds" "list_all is_upper_AZ sfx"
  shows "CourseCode (d @ CHR '' '' # ds @ sfx)"
proof -
  have d: "\<And>x. x \<in> set d \<Longrightarrow> is_upper_AZ x"
    using assms(1) by (simp add: dept_ok_def list_all_iff)
  have tw: "takeWhile is_upper_AZ (d @ CHR '' '' # ds @ sfx) = d"
    using d by (simp add: takeWhile_append2)
  have dw: "dropWhile is_upper_AZ (d @ CHR '' '' # ds @ sfx) = CHR '' '' # ds @ sfx"
    using d by (simp add: dropWhile_append2)
  have ds: "\<And>x. x \<in> set ds \<Longrightarrow> is_digit x"
    using assms(3) by (simp add: list_all_iff)
  have sfx: "\<And>x. x \<in> set sfx \<Longrightarrow> \<not> is_digit x"
    using assms(4) by (auto simp: list_all_iff upper_not_digit)
  have "dropWhile is_digit sfx = sfx"
    using sfx by (cases sfx) auto
  then have dd: "dropWhile is_digit (ds @ sfx) = sfx"
    using ds by (simp add: dropWhile_append2)
  have td: "takeWhile is_digit (ds @ sfx) \<noteq> []"
    using ds assms(2) by (simp add: takeWhile_append2)
  show ?thesis
    unfolding CourseCode_def tw dw using assms(1,4) td dd by simp
qed

lemma code_shapeE:
  assumes "code_shape s"
  obtains d r where "s = d @ CHR '' '' # r" "dept_ok d" "r \<noteq> []"
    "is_digit (last r) \<or> is_upper_AZ (last r) \<or> is_lower_az (last r)"
proof -
  let ?d = "takeWhile is_upper_AZ s"
  from assms obtain r where dw: "dropWhile is_upper_AZ s = CHR '' '' # r"
    and td: "takeWhile is_digit r \<noteq> []"
    and sf: "list_all is_upper_AZ (dropWhile is_digit r)
                \<or> length (dropWhile is_digit r) = 1 \<and> list_all is_lower_az (dropWhile is_digit r)"
    and dk: "dept_ok ?d"
    by (auto simp: code_shape_def split: list.splits)
  have s: "s = ?d @ CHR '' '' # r"
    using dw takeWhile_dropWhile_id [of is_upper_AZ s] by simp
  have rne: "r \<noteq> []" using td by auto
  have r: "r = takeWhile is_digit r @ dropWhile is_digit r" by simp
  have "is_digit (last r) \<or> is_upper_AZ (last r) \<or> is_lower_az (last r)"
  proof (cases "dropWhile is_digit r = []")
    case True
    then have "r = takeWhile is_digit r" using r by (metis append_Nil2)
    then have "last r \<in> set (takeWhile is_digit r)" using rne by (metis last_in_set)
    then show ?thesis by (auto dest: set_takeWhileD)
  next
    case False
    then have "last r = last (dropWhile is_digit r)"
      using r by (metis last_appendR)
    moreover have "last (dropWhile is_digit r) \<in> set (dropWhile is_digit r)"
      using False by simp
    ultimately show ?thesis using sf by (auto simp: list_all_iff)
  qed
  then show ?thesis using that s dk rne by blast
qed

lemma py_split_nonspace_head:
  assumes "d \<noteq> []" "list_all (\<lambda>c. \<not> is_space c) d"
  shows "py_split (d @ CHR '' '' # r) = d # py_split (CHR '' '' # r)"
proof -
  have nd: "\<And>x. x \<in> set d \<Longrightarrow> \<not> is_space x"
    using assms(2) by (simp add: list_all_iff)
  have "\<not> is_space (hd d)" using assms nd by simp
  then have 1: "dropWhile is_space (d @ CHR '' '' # r) = d @ CHR '' '' # r"
    using assms(1) by (cases d) simp_all
  have 2: "takeWhile (\<lambda>c. \<not> is_space c) (d @ CHR '' '' # r) = d"
    using nd by (simp add: takeWhile_append2)
  have 3: "dropWhile (\<lambda>c. \<not> is_space c) (d @ CHR '' '' # r) = CHR '' '' # r"
    using nd by (simp add: dropWhile_append2)
  show ?thesis
    using assms(1) by (subst py_split.simps) (simp add: 1 2 3 Let_def)
qed

lemma dept_ok_nonspace: "dept_ok d \<Longrightarrow> d \<noteq> [] \<and> list_all (\<lambda>c. \<not> is_space c) d"
  by (auto simp: dept_ok_def list_all_iff upper_not_space)

lemma py_split_code_shape:
  assumes "code_shape s"
  shows "\<exists>d rest. py_split s = d # rest \<and> dept_ok d"
  using assms
  by (elim code_shapeE) (auto simp: py_split_nonspace_head dept_ok_nonspace)

subsection \<open>Matches are course codes\<close>

lemma match_code_with_CourseCode:
  assumes "match_code_with k s = Some (m, rest)" "2 \<le> k" "k \<le> 4"
  shows "CourseCode m"
proof -
  from assms(1) obtain r where k: "k \<le> length s" and up: "list_all is_upper_AZ (take k s)"
    and td: "takeWhile is_digit r \<noteq> []"
    and m: "m = take k s @ CHR '' '' # takeWhile is_digit r @ takeWhile is_upper_AZ (dropWhile is_digit r)"
    by (auto simp: match_code_with_def split: if_splits list.splits)
  have "dept_ok (take k s)"
    using k up assms(2,3) by (simp add: dept_ok_def)
  moreover have "list_all is_digit (takeWhile is_digit r)"
    by (auto simp: list_all_iff dest: set_takeWhileD)
  moreover have "list_all is_upper_AZ (takeWhile is_upper_AZ (dropWhile is_digit r))"
    by (auto simp: list_all_iff dest: set_takeWhileD)
  ultimately show ?thesis
    unfolding m using td by (intro CourseCodeI)
qed

lemma match_code_CourseCode: "match_code s = Some (m, rest) \<Longrightarrow> CourseCode m"
  by (auto simp: match_code_def split: option.splits dest: match_code_with_CourseCode)

lemma finditer_code_CourseCode: "m \<in> set (finditer_code s) \<Longrightarrow> CourseCode m"
proof (induction s rule: finditer_code.induct)
  case 1
  then show ?case by simp
next
  case (2 c cs)
  then show ?case
    by (auto split: option.splits dest: match_code_CourseCode)
qed

lemma strip_id:
  assumes "s \<noteq> []" "\<not> is_space (hd s)" "\<not> is_space (last s)"
  shows "strip s = s"
proof -
  have 1: "dropWhile is_space s = s"
    using assms(1,2) by (cases s) simp_all
  have "rev s \<noteq> []" "\<not> is_space (hd (rev s))"
    using assms(1,3) by (simp_all add: hd_rev)
  then have 2: "dropWhile is_space (rev s) = rev s"
    by (cases "rev s") simp_all
  show ?thesis
    unfolding strip_def lstrip_def rstrip_def 1 2 by simp
qed

lemma rstrip_chars_id:
  assumes "s \<noteq> []" "last s \<notin> set chars"
  shows "rstrip_chars chars s = s"
proof -
  have "rev s \<noteq> []" "hd (rev s) \<notin> set chars"
    using assms by (simp_all add: hd_rev)
  then have "dropWhile (\<lambda>c. c \<in> set chars) (rev s) = rev s"
    by (cases "rev s") simp_all
  then show ?thesis
    by (simp add: rstrip_chars_def)
qed

lemma sub_trailing_punct_id:
  assumes "s \<noteq> []" "last s \<notin> set ''.,;''" "last s \<noteq> newline"
  shows "sub_trailing_punct s = s"
  using assms rstrip_chars_id [of s "''.,;''"] by (simp add: sub_trailing_punct_def)

lemma lower_not_punct: "is_lower_az c \<Longrightarrow> c \<notin> set ''.,;'' \<and> c \<noteq> newline"
  by (auto simp: char_class_defs Let_def)

lemma code_shape_normal:
  assumes "code_shape m"
  shows "m \<noteq> [] \<and> sub_trailing_punct (strip m) = m"
proof -
  from assms obtain d r where m: "m = d @ CHR '' '' # r" and d: "dept_ok d" and r: "r \<noteq> []"
    and l: "is_digit (last r) \<or> is_upper_AZ (last r) \<or> is_lower_az (last r)"
    by (rule code_shapeE)
  have "d \<noteq> []" "is_upper_AZ (hd d)"
    using d by (cases d; simp add: dept_ok_def)+
  then have hd: "\<not> is_space (hd m)"
    by (simp add: m upper_not_space)
  have last: "last m = last r"
    using r by (simp add: m)
  have "\<not> is_space (last m)" "last m \<notin> set ''.,;''" "last m \<noteq> newline"
    unfolding last using l
    using upper_not_space lower_not_space digit_not_space apply blast
    using l upper_not_punct lower_not_punct digit_not_punct apply blast
    using l upper_not_punct lower_not_punct digit_not_punct apply blast
    done
  moreover have "m \<noteq> []" by (simp add: m)
  ultimately show ?thesis
    using hd by (simp add: strip_id sub_trailing_punct_id)
qed

lemma extract_eq_keep_first: "extract_course_codes t = keep_first (finditer_code t)"
proof -
  have "map (\<lambda>m. sub_trailing_punct (strip m)) (finditer_code t) = finditer_code t"
    by (rule map_idI) (simp add: finditer_code_CourseCode CourseCode_imp_shape code_shape_normal)
  moreover have "filter (\<lambda>c. c \<noteq> []) (finditer_code t) = finditer_code t"
    by (rule filter_True) (use finditer_code_CourseCode CourseCode_imp_shape code_shape_normal in blast)
  ultimately show ?thesis
    by (simp add: extract_course_codes_def collect_codes_keep_first)
qed

lemma extract_CourseCode: "c \<in> set (extract_course_codes t) \<Longrightarrow> CourseCode c"
  by (simp add: extract_eq_keep_first set_keep_first finditer_code_CourseCode)

lemma rstrip_snoc: "rstrip (x @ [c]) = (if is_space c then rstrip x else x @ [c])"
  by (simp add: rstrip_def)

lemma letter_not_space: "is_letter_ic c \<Longrightarrow> \<not> is_space c"
  by (auto simp: is_letter_ic_def upper_not_space lower_not_space)

lemma letter_not_digit: "is_letter_ic c \<Longrightarrow> \<not> is_digit c"
  by (auto simp: is_letter_ic_def upper_not_digit lower_not_digit)

lemma rstrip_digits:
  assumes "ds \<noteq> []" "list_all is_digit ds"
  shows "rstrip ds = ds"
proof -
  have "is_digit (last ds)" using assms by (simp add: list_all_iff)
  then have "\<not> is_space (hd (rev ds))" using assms(1) by (simp add: hd_rev digit_not_space)
  then have "dropWhile is_space (rev ds) = rev ds"
    using assms(1) by (cases "rev ds") simp_all
  then show ?thesis by (simp add: rstrip_def)
qed

lemma lstrip_digits:
  assumes "ds \<noteq> []" "list_all is_digit ds"
  shows "lstrip (ds @ r) = ds @ r"
  using assms by (cases ds) (simp_all add: lstrip_def digit_not_space)

lemma standalone_num_match_strip:
  assumes "standalone_num_match t"
  shows "\<exists>ds sfx. strip t = ds @ sfx \<and> ds \<noteq> [] \<and> list_all is_digit ds
           \<and> (sfx = [] \<or> (\<exists>c. sfx = [c] \<and> is_letter_ic c))"
proof -
  define ds where "ds = takeWhile is_digit t"
  define r where "r = dropWhile is_digit t"
  have t: "t = ds @ r" by (simp add: ds_def r_def)
  have ds: "ds \<noteq> []" "list_all is_digit ds"
    using assms
    by (auto simp: ds_def standalone_num_match_def Let_def list_all_iff dest: set_takeWhileD)
  have "(case r of [] \<Rightarrow> r | c # cs \<Rightarrow> if is_letter_ic c then cs else r) = []
      \<or> (case r of [] \<Rightarrow> r | c # cs \<Rightarrow> if is_letter_ic c then cs else r) = [newline]"
    using assms unfolding standalone_num_match_def Let_def r_def by blast
  then have r: "r = [] \<or> r = [newline] \<or> (\<exists>c. is_letter_ic c \<and> (r = [c] \<or> r = [c, newline]))"
    by (cases r) (auto split: if_splits)
  have l: "lstrip t = ds @ r"
    unfolding t by (rule lstrip_digits [OF ds])
  from r consider "r = []" | "r = [newline]" | c where "is_letter_ic c" "r = [c]"
    | c where "is_letter_ic c" "r = [c, newline]" by blast
  then show ?thesis
  proof cases
    case 1
    then have "strip t = ds"
      unfolding strip_def l using rstrip_digits [OF ds] by simp
    then show ?thesis using ds by auto
  next
    case 2
    then have "strip t = ds"
      unfolding strip_def l using rstrip_digits [OF ds] by (simp add: rstrip_snoc)
    then show ?thesis using ds by auto
  next
    case 3
    then have "strip t = ds @ [c]"
      unfolding strip_def l by (simp add: rstrip_snoc letter_not_space)
    then show ?thesis using ds 3 by auto
  next
    case 4
    have "rstrip (ds @ [c, newline]) = rstrip ((ds @ [c]) @ [newline])" by simp
    also have "\<dots> = ds @ [c]"
      using 4 by (simp only: rstrip_snoc) (simp add: letter_not_space)
    finally have "strip t = ds @ [c]"
      unfolding strip_def l using 4 by simp
    then show ?thesis using ds 4 by auto
  qed
qed

subsection \<open>The loop keeps its invariants\<close>

lemma letter_cases: "is_letter_ic c \<Longrightarrow> is_upper_AZ c \<or> is_lower_az c"
  by (simp add: is_letter_ic_def)

lemma shorthand_code_shape:
  assumes "dept_ok dept" "standalone_num_match t"
  shows "code_shape (dept @ CHR '' '' # strip t)"
proof -
  from standalone_num_match_strip [OF assms(2)]
  obtain ds sfx where s: "strip t = ds @ sfx" and ds: "ds \<noteq> []" "list_all is_digit ds"
    and sfx: "sfx = [] \<or> (\<exists>c. sfx = [c] \<and> is_letter_ic c)"
    by blast
  have "list_all is_upper_AZ sfx \<or> length sfx = 1 \<and> list_all is_lower_az sfx"
    using sfx by (auto dest: letter_cases)
  then have "code_shape (dept @ CHR '' '' # ds @ sfx)"
    using assms(1) ds by (intro code_shapeI)
  then show ?thesis by (simp add: s)
qed

lemma parse_segment_unfold:
  "parse_segment (result, last_dept) seg =
     (if strip seg = [] then Inr (result, last_dept)
      else
        (case (case last_dept of
                 None \<Rightarrow> extract_course_codes (strip seg)
               | Some dept \<Rightarrow>
                   if extract_course_codes (strip seg) = [] \<and> dept \<noteq> []
                       \<and> standalone_num_match (rstrip_chars ''.,;'' (strip seg))
                   then [dept @ '' '' @ strip (rstrip_chars ''.,;'' (strip seg))]
                   else extract_course_codes (strip seg)) of
           [] \<Rightarrow> Inr (result, last_dept)
         | c # cs \<Rightarrow>
             (case py_split (last (c # cs)) of
                [] \<Rightarrow> Inl IndexError
              | d # _ \<Rightarrow> Inr (result @ [c # cs], Some d))))"
  by (simp add: parse_segment_def Let_def split: list.splits option.splits)

lemma parse_segment_ok:
  assumes "state_ok st"
  shows "\<exists>st'. parse_segment st seg = Inr st' \<and> state_ok st'"
proof -
  obtain result last_dept where st: "st = (result, last_dept)"
    by (cases st)
  define codes where "codes =
    (case last_dept of
       None \<Rightarrow> extract_course_codes (strip seg)
     | Some dept \<Rightarrow>
         if extract_course_codes (strip seg) = [] \<and> dept \<noteq> []
             \<and> standalone_num_match (rstrip_chars ''.,;'' (strip seg))
         then [dept @ '' '' @ strip (rstrip_chars ''.,;'' (strip seg))]
         else extract_course_codes (strip seg))"
  have ex: "list_all code_shape (extract_course_codes (strip seg))"
    by (simp add: list_all_iff extract_CourseCode CourseCode_imp_shape)
  have codes: "list_all code_shape codes"
  proof (cases last_dept)
    case None
    then show ?thesis using ex by (simp add: codes_def)
  next
    case (Some dept)
    then have "dept_ok dept"
      using assms by (simp add: state_ok_def st)
    then show ?thesis
      using ex Some by (simp add: codes_def shorthand_code_shape)
  qed
  have ps: "parse_segment (result, last_dept) seg =
     (if strip seg = [] then Inr (result, last_dept)
      else
        (case codes of
           [] \<Rightarrow> Inr (result, last_dept)
         | c # cs \<Rightarrow>
             (case py_split (last (c # cs)) of
                [] \<Rightarrow> Inl IndexError
              | d # _ \<Rightarrow> Inr (result @ [c # cs], Some d))))"
    unfolding codes_def by (rule parse_segment_unfold)
  show ?thesis
  proof (cases "strip seg = [] \<or> codes = []")
    case True
    then have "parse_segment st seg = Inr st"
      unfolding st by (auto simp: ps)
    then show ?thesis using assms by simp
  next
    case False
    then obtain c cs where cs: "codes = c # cs"
      by (cases codes) auto
    have "code_shape (last (c # cs))"
      using codes last_in_set [of "c # cs"] unfolding cs list_all_iff by blast
    then obtain d rest where d: "py_split (last (c # cs)) = d # rest" "dept_ok d"
      using py_split_code_shape by blast
    have "parse_segment st seg = Inr (result @ [codes], Some d)"
      unfolding st using False d by (simp add: ps cs)
    moreover have "state_ok (result @ [codes], Some d)"
      using assms codes d(2) by (simp add: state_ok_def st)
    ultimately show ?thesis by blast
  qed
qed

lemma parse_loop_ok:
  "state_ok st \<Longrightarrow> \<exists>st'. parse_loop segs st = Inr st' \<and> state_ok st'"
proof (induction segs arbitrary: st)
  case Nil
  then show ?case by simp
next
  case (Cons seg segs)
  from parse_segment_ok [OF Cons.prems, of seg]
  obtain st1 where 1: "parse_segment st seg = Inr st1" "state_ok st1" by blast
  from Cons.IH [OF 1(2)] show ?case
    by (simp add: 1(1))
qed

lemma parse_prereq_raw_ok:
  "\<exists>result. parse_prereq_raw raw = Inr result \<and> list_all (list_all code_shape) result"
proof (cases raw)
  case None
  then show ?thesis by (simp add: parse_prereq_raw_def)
next
  case (Some r)
  have init: "state_ok ([], None)" by (simp add: state_ok_def)
  show ?thesis
  proof (cases "r = [] \<or> strip r = []")
    case True
    then show ?thesis using Some by (auto simp: parse_prereq_raw_def)
  next
    case False
    define body where "body = collapse_ws (if CHR '';'' \<in> set (strip r)
                        then strip (takeWhile (\<lambda>c. c \<noteq> CHR '';'') (strip r))
                        else strip r)"
    from parse_loop_ok [OF init, of "re_split_and [] body"]
    obtain result last_dept where
      1: "parse_loop (re_split_and [] body) ([], None) = Inr (result, last_dept)"
      and 2: "state_ok (result, last_dept)"
      by auto
    have "parse_prereq_raw raw = Inr result"
      using False 1 by (simp add: Some parse_prereq_raw_def Let_def body_def)
    then show ?thesis using 2 by (simp add: state_ok_def)
  qed
qed


lemma parse_segment_tracked:
  assumes "dept_tracked st" "parse_segment st seg = Inr st'"
  shows "dept_tracked st'"
proof -
  obtain result last_dept where st: "st = (result, last_dept)" by (cases st)
  show ?thesis
    using assms unfolding st parse_segment_unfold
    by (auto simp: dept_tracked_def split: if_splits list.splits option.splits)
qed

lemma parse_loop_tracked:
  "dept_tracked st \<Longrightarrow> parse_loop segs st = Inr st' \<Longrightarrow> dept_tracked st'"
proof (induction segs arbitrary: st)
  case Nil
  then show ?case by simp
next
  case (Cons seg segs)
  then show ?case
    by (auto split: sum.splits dest: parse_segment_tracked)
qed

lemma parse_loop_snoc:
  "parse_loop (segs @ [seg]) st =
     (case parse_loop segs st of Inl e \<Rightarrow> Inl e | Inr st' \<Rightarrow> parse_segment st' seg)"
  by (induction segs arbitrary: st) (auto split: sum.splits)

lemma py_split_token:
  assumes "py_split s = d # rest"
  shows "d \<noteq> [] \<and> list_all (\<lambda>c. \<not> is_space c) d"
proof -
  define t where "t = dropWhile is_space s"
  have ne: "t \<noteq> []" and d: "d = takeWhile (\<lambda>c. \<not> is_space c) t"
    using assms by (subst (asm) py_split.simps; simp add: t_def Let_def split: if_splits)+
  have "\<not> is_space (hd t)"
    using ne unfolding t_def by (rule hd_dropWhile)
  then have "d \<noteq> []"
    using ne unfolding d by (cases t) simp_all
  moreover have "list_all (\<lambda>c. \<not> is_space c) d"
    unfolding d by (auto simp: list_all_iff dest: set_takeWhileD)
  ultimately show ?thesis by simp
qed

lemma standalone_digits_letter:
  assumes "ds \<noteq> []" "list_all is_digit ds" "sfx = [] \<or> length sfx = 1 \<and> list_all is_letter_ic sfx"
  shows "standalone_num_match (ds @ sfx) \<and> strip (ds @ sfx) = ds @ sfx"
proof -
  have ds: "\<And>x. x \<in> set ds \<Longrightarrow> is_digit x"
    using assms(2) by (simp add: list_all_iff)
  from assms(3) consider "sfx = []" | c where "sfx = [c]" "is_letter_ic c"
    by (cases sfx) auto
  then show ?thesis
  proof cases
    case 1
    have tw: "takeWhile is_digit ds = ds" "dropWhile is_digit ds = []"
      using ds by simp_all
    have st: "strip ds = ds"
      using assms(1,2) lstrip_digits [of ds "[]"] rstrip_digits [of ds] by (simp add: strip_def)
    show ?thesis
      using assms(1) by (simp add: 1 standalone_num_match_def Let_def tw st)
  next
    case 2
    have tw: "takeWhile is_digit (ds @ [c]) = ds" "dropWhile is_digit (ds @ [c]) = [c]"
      using ds 2(2) by (simp_all add: takeWhile_append2 dropWhile_append2 letter_not_digit)
    have st: "strip (ds @ [c]) = ds @ [c]"
      using assms(1,2) lstrip_digits [of ds "[c]"] 2(2)
      by (simp add: strip_def rstrip_snoc letter_not_space)
    show ?thesis
      using assms(1) 2 by (simp add: standalone_num_match_def Let_def tw st)
  qed
qed

lemma rstrip_chars_Nil: "rstrip_chars chars [] = []"
  by (simp add: rstrip_chars_def)

lemma parse_segment_shorthand:
  assumes "py_split c = dept # rest"
    and "extract_course_codes (strip seg) = []"
    and "rstrip_chars ''.,;'' (strip seg) = ds @ sfx"
    and "ds \<noteq> []" "list_all is_digit ds"
    and "sfx = [] \<or> length sfx = 1 \<and> list_all is_letter_ic sfx"
  shows "parse_segment (result, Some dept) seg
           = Inr (result @ [[dept @ '' '' @ ds @ sfx]], Some dept)"
proof -
  have dept: "dept \<noteq> []" "list_all (\<lambda>c. \<not> is_space c) dept"
    using py_split_token [OF assms(1)] by simp_all
  have ne: "strip seg \<noteq> []"
    using assms(3,4) by (auto simp: rstrip_chars_Nil)
  have m: "standalone_num_match (ds @ sfx)" "strip (ds @ sfx) = ds @ sfx"
    using standalone_digits_letter [OF assms(4,5,6)] by simp_all
  have sp: "py_split (dept @ CHR '' '' # ds @ sfx) = dept # py_split (CHR '' '' # ds @ sfx)"
    using dept by (rule py_split_nonspace_head)
  show ?thesis
    unfolding parse_segment_unfold
    using ne dept(1) m sp by (simp add: assms(2,3))
qed


subsection \<open>The form of the output\<close>












text \<open>
  The form is not met by a small letter in the first group, in a group of several codes,
  or after a department other than the one carried over.
\<close>

lemma groups_ok_excludes: "\<not> CourseCode ''CSE 12a'' \<and> \<not> groups_ok None [[''CSE 12a'']] \<and> \<not> groups_ok None [[''CSE 12''], [''CSE 12a'', ''CSE 1'']] \<and> \<not> groups_ok None [[''CSE 12''], [''MATH 12a'']]"
  by (simp add: CourseCode_def ShorthandCode_def dept_ok_def dept_of_def char_class_defs)

subsection \<open>The edge compiler\<close>

lemma dom_code_to_course_aux:
  "dom (foldl (\<lambda>m c. m(code c \<mapsto> c)) m0 cs) = dom m0 \<union> code ` set cs"
  by (induction cs arbitrary: m0) auto

lemma code_to_course_known:
  "(code_to_course courses s \<noteq> None) = (s \<in> set (map code courses))"
  using dom_code_to_course_aux [of Map.empty courses]
  by (auto simp: code_to_course_def dom_def)

lemma code_to_course_known':
  "(\<exists>y. code_to_course courses s = Some y) = (s \<in> code ` set courses)"
  using code_to_course_known [of courses s] by simp

lemma edges_of_tuple_eq:
  "edges_of_tuple known tgt i or_tuple =
     map (\<lambda>s. \<lparr>source = s, target = tgt, or_group_index = i\<rparr>)
       (filter (\<lambda>s. known s \<noteq> None) or_tuple)"
  by (induction or_tuple) simp_all

lemma edges_of_tuple_same:
  "filter (\<lambda>e. or_group_index e = i) (edges_of_tuple known tgt i or_tuple)
      = edges_of_tuple known tgt i or_tuple"
  by (induction or_tuple) simp_all

lemma edges_of_tuple_other:
  "i \<noteq> j \<Longrightarrow> filter (\<lambda>e. or_group_index e = j) (edges_of_tuple known tgt i or_tuple) = []"
  by (induction or_tuple) simp_all

lemma edges_of_tuple_group:
  "filter (\<lambda>e. or_group_index e = j) (edges_of_tuple known tgt i or_tuple)
      = (if i = j then edges_of_tuple known tgt i or_tuple else [])"
  by (simp add: edges_of_tuple_same edges_of_tuple_other)

lemma edges_of_structured_group:
  "filter (\<lambda>e. or_group_index e = j) (edges_of_structured known tgt i structured) =
     (if i \<le> j \<and> j < i + length structured
      then edges_of_tuple known tgt j (structured ! (j - i)) else [])"
proof (induction structured arbitrary: i)
  case Nil
  then show ?case by auto
next
  case (Cons or_tuple structured)
  show ?case
  proof (cases "i = j")
    case True
    then show ?thesis by (simp add: edges_of_tuple_group Cons.IH)
  next
    case False
    then show ?thesis
      by (auto simp: edges_of_tuple_group Cons.IH Suc_diff_le nth_Cons')
  qed
qed

lemma edges_of_structured_target:
  "e \<in> set (edges_of_structured known tgt i structured) \<Longrightarrow> target e = tgt"
  by (induction structured arbitrary: i) (auto simp: edges_of_tuple_eq)

lemma edges_of_courses_target:
  "e \<in> set (edges_of_courses known cs) \<Longrightarrow> target e \<in> code ` set cs"
  by (induction cs) (auto dest: edges_of_structured_target)

lemma edges_of_courses_group:
  assumes "distinct (map code cs)" "c \<in> set cs"
  shows "filter (\<lambda>e. target e = code c \<and> or_group_index e = j) (edges_of_courses known cs) =
     (if j < length (structured_or_empty c)
      then edges_of_tuple known (code c) j (structured_or_empty c ! j) else [])"
  using assms
proof (induction cs)
  case Nil
  then show ?case by simp
next
  case (Cons c' cs)
  let ?P = "\<lambda>e. target e = code c \<and> or_group_index e = j"
  show ?case
  proof (cases "code c' = code c")
    case True
    then have c: "c' = c"
      using Cons.prems by (auto simp: image_iff)
    have "code c \<notin> code ` set cs"
      using Cons.prems c by auto
    then have tl: "filter ?P (edges_of_courses known cs) = []"
      unfolding filter_empty_conv using edges_of_courses_target by metis
    have "filter ?P (edges_of_structured known (code c) 0 (structured_or_empty c))
        = filter (\<lambda>e. or_group_index e = j)
            (edges_of_structured known (code c) 0 (structured_or_empty c))"
      by (rule filter_cong) (auto dest: edges_of_structured_target)
    then show ?thesis
      by (simp add: c tl edges_of_structured_group)
  next
    case False
    then have "c \<in> set cs" using Cons.prems by auto
    moreover have "filter ?P (edges_of_structured known (code c') 0 (structured_or_empty c')) = []"
      using False by (auto simp: filter_empty_conv dest: edges_of_structured_target)
    ultimately show ?thesis
      using Cons by simp
  qed
qed

lemma build_group:
  assumes "distinct (map code courses)" "c \<in> set courses"
  shows "map source (filter (\<lambda>e. target e = code c \<and> or_group_index e = j) (build_prereq_edges courses)) =
     (if j < length (structured_or_empty c)
      then filter (\<lambda>s. s \<in> set (map code courses)) (structured_or_empty c ! j) else [])"
  unfolding build_prereq_edges_def edges_of_courses_group [OF assms]
  by (simp add: edges_of_tuple_eq o_def code_to_course_known')

lemma edges_of_structured_mem:
  "e \<in> set (edges_of_structured known tgt 0 structured) \<longleftrightarrow>
     target e = tgt \<and> or_group_index e < length structured
     \<and> source e \<in> set (structured ! or_group_index e) \<and> known (source e) \<noteq> None"
proof -
  have "e \<in> set (edges_of_structured known tgt 0 structured) \<longleftrightarrow>
      e \<in> set (filter (\<lambda>e'. or_group_index e' = or_group_index e)
                 (edges_of_structured known tgt 0 structured))"
    by simp
  also have "\<dots> \<longleftrightarrow> or_group_index e < length structured
      \<and> e \<in> set (edges_of_tuple known tgt (or_group_index e) (structured ! or_group_index e))"
    unfolding edges_of_structured_group by simp
  also have "\<dots> \<longleftrightarrow> target e = tgt \<and> or_group_index e < length structured
     \<and> source e \<in> set (structured ! or_group_index e) \<and> known (source e) \<noteq> None"
    by (cases e) (auto simp: edges_of_tuple_eq)
  finally show ?thesis .
qed

lemma edges_of_courses_mem:
  "e \<in> set (edges_of_courses known cs) \<longleftrightarrow>
     (\<exists>c \<in> set cs. e \<in> set (edges_of_structured known (code c) 0 (structured_or_empty c)))"
  by (induction cs) auto


lemma count_list_filter_sat: "P x \<Longrightarrow> count_list (filter P xs) x = count_list xs x"
  by (induction xs) auto

lemma count_list_edges_of_tuple:
  "count_list (edges_of_tuple known tgt i or_tuple) \<lparr>source = s, target = tgt, or_group_index = i\<rparr>
     = (if known s \<noteq> None then count_list or_tuple s else 0)"
  by (induction or_tuple) auto

lemma build_count:
  assumes "distinct (map code courses)" "c \<in> set courses"
    and "j < length (structured_or_empty c)" "s \<in> set (map code courses)"
  shows "count_list (build_prereq_edges courses) \<lparr>source = s, target = code c, or_group_index = j\<rparr>
     = count_list (structured_or_empty c ! j) s"
proof -
  let ?e = "\<lparr>source = s, target = code c, or_group_index = j\<rparr>"
  let ?P = "\<lambda>e. target e = code c \<and> or_group_index e = j"
  have "count_list (build_prereq_edges courses) ?e
      = count_list (filter ?P (build_prereq_edges courses)) ?e"
    by (rule count_list_filter_sat [symmetric]) simp
  also have "\<dots> = count_list (edges_of_tuple (code_to_course courses) (code c) j
                        (structured_or_empty c ! j)) ?e"
    unfolding build_prereq_edges_def edges_of_courses_group [OF assms(1,2)]
    using assms(3) by simp
  also have "\<dots> = count_list (structured_or_empty c ! j) s"
    using assms(4) by (simp only: count_list_edges_of_tuple code_to_course_known if_True)
  finally show ?thesis .
qed

section \<open>The claims\<close>

text \<open>
  C1. The docstring of the module gives, for the sentence
  \<open>ECON 100A or ECON 120A or ECE 109; and MATH 20A\<close>, the two groups
  \<open>[("ECON 100A", "ECON 120A", "ECE 109"), ("MATH 20A",)]\<close>. The code cuts the sentence
  at its first semicolon before splitting, so it returns the first group alone: the
  clause \<open>and MATH 20A\<close> is lost.
\<close>

theorem parse_docstring_example_one_group:
  "parse_prereq_raw (Some ''ECON 100A or ECON 120A or ECE 109; and MATH 20A'')
     = Inr [[''ECON 100A'', ''ECON 120A'', ''ECE 109'']]"
  by (simp add: parser_defs string_op_defs char_class_defs py_split.simps)

text \<open>
  C2. Edge grouping reconstruction. For a catalog (a list of courses with distinct codes)
  and a course \<open>c\<close> of it: the edges with target \<open>c\<close>, grouped by \<open>or_group_index\<close>, with
  the sources of each group read in the order of emission, are the OrGroups of \<open>c\<close>, in
  order, each restricted to the codes that are keys of the catalog; no edge of \<open>c\<close>
  carries an index beyond its groups; and nothing is deduplicated: a known code occurs as
  often among the edges of a group as it occurs in the OrGroup.
\<close>

theorem edge_grouping_reconstruction:
  assumes "distinct (map code courses)" and "c \<in> set courses"
  shows "map (\<lambda>i. map source (filter (\<lambda>e. target e = code c \<and> or_group_index e = i)
                 (build_prereq_edges courses)))
           [0..<length (structured_or_empty c)]
         = map (filter (\<lambda>s. s \<in> set (map code courses))) (structured_or_empty c)
       \<and> (length (structured_or_empty c) \<le> i \<longrightarrow>
            filter (\<lambda>e. target e = code c \<and> or_group_index e = i)
              (build_prereq_edges courses) = [])
       \<and> (j < length (structured_or_empty c) \<and> s \<in> set (map code courses) \<longrightarrow>
            count_list (build_prereq_edges courses)
                \<lparr>source = s, target = code c, or_group_index = j\<rparr>
              = count_list (structured_or_empty c ! j) s)"
proof -
  have "map (\<lambda>i. map source (filter (\<lambda>e. target e = code c \<and> or_group_index e = i)
                 (build_prereq_edges courses)))
           [0..<length (structured_or_empty c)]
         = map (filter (\<lambda>s. s \<in> set (map code courses))) (structured_or_empty c)"
    by (rule nth_equalityI) (simp_all add: build_group [OF assms])
  moreover have "filter (\<lambda>e. target e = code c \<and> or_group_index e = i)
      (build_prereq_edges courses) = []"
    if "length (structured_or_empty c) \<le> i"
    using build_group [OF assms, of i] that by simp
  ultimately show ?thesis
    using build_count [OF assms, of j s] by blast
qed

theorem edge_grouping_reconstruction_witness:
  "build_prereq_edges
      [\<lparr>code = ''CSE 8B'', prereq_raw = None, prereq_structured = None\<rparr>,
       \<lparr>code = ''CSE 12'', prereq_raw = None,
        prereq_structured = Some [[''CSE 8B'', ''CSE 99'', ''CSE 8B''], [''CSE 8B'']]\<rparr>]
     = [\<lparr>source = ''CSE 8B'', target = ''CSE 12'', or_group_index = 0\<rparr>,
        \<lparr>source = ''CSE 8B'', target = ''CSE 12'', or_group_index = 0\<rparr>,
        \<lparr>source = ''CSE 8B'', target = ''CSE 12'', or_group_index = 1\<rparr>]
   \<and> map (\<lambda>i. map source (filter (\<lambda>e. target e = ''CSE 12'' \<and> or_group_index e = i)
        (build_prereq_edges
          [\<lparr>code = ''CSE 8B'', prereq_raw = None, prereq_structured = None\<rparr>,
           \<lparr>code = ''CSE 12'', prereq_raw = None,
            prereq_structured = Some [[''CSE 8B'', ''CSE 99'', ''CSE 8B''], [''CSE 8B'']]\<rparr>])))
        [0..<2]
     = [[''CSE 8B'', ''CSE 8B''], [''CSE 8B'']]
   \<and> count_list
        (build_prereq_edges
          [\<lparr>code = ''CSE 8B'', prereq_raw = None, prereq_structured = None\<rparr>,
           \<lparr>code = ''CSE 12'', prereq_raw = None,
            prereq_structured = Some [[''CSE 8B'', ''CSE 99'', ''CSE 8B''], [''CSE 8B'']]\<rparr>])
        \<lparr>source = ''CSE 8B'', target = ''CSE 12'', or_group_index = 0\<rparr> = 2"
proof -
  let ?b = "\<lparr>code = ''CSE 8B'', prereq_raw = None, prereq_structured = None\<rparr>"
  let ?c = "\<lparr>code = ''CSE 12'', prereq_raw = None,
        prereq_structured = Some [[''CSE 8B'', ''CSE 99'', ''CSE 8B''], [''CSE 8B'']]\<rparr>"
  have d: "distinct (map code [?b, ?c])" by simp
  have m: "?c \<in> set [?b, ?c]" by simp
  have st: "structured_or_empty ?c = [[''CSE 8B'', ''CSE 99'', ''CSE 8B''], [''CSE 8B'']]"
    by (simp add: structured_or_empty_def)
  have ev: "build_prereq_edges [?b, ?c]
     = [\<lparr>source = ''CSE 8B'', target = ''CSE 12'', or_group_index = 0\<rparr>,
        \<lparr>source = ''CSE 8B'', target = ''CSE 12'', or_group_index = 0\<rparr>,
        \<lparr>source = ''CSE 8B'', target = ''CSE 12'', or_group_index = 1\<rparr>]"
    by (simp add: build_prereq_edges_def code_to_course_def structured_or_empty_def)
  from edge_grouping_reconstruction [OF d m, of 2 0 "''CSE 8B''"]
  have "map (\<lambda>i. map source (filter (\<lambda>e. target e = ''CSE 12'' \<and> or_group_index e = i)
        (build_prereq_edges [?b, ?c]))) [0..<2] = [[''CSE 8B'', ''CSE 8B''], [''CSE 8B'']]"
    and "count_list (build_prereq_edges [?b, ?c])
        \<lparr>source = ''CSE 8B'', target = ''CSE 12'', or_group_index = 0\<rparr> = 2"
    by (simp_all add: st numeral_2_eq_2)
  then show ?thesis using ev by (intro conjI)
qed

text \<open>
  C3. Shorthand carry-over. The two examples hold, and in general: when the segments read
  so far have produced at least one group, a further segment with no extracted codes
  that, stripped of trailing \<open>.\<close>, \<open>,\<close>, \<open>;\<close>, is digits followed by at most one letter
  adds one group of one code, made of the first word (the department) of the last code of
  the last group, a space and the shorthand; the department carried over stays the same.
\<close>

theorem shorthand_carry_over:
  "parse_prereq_raw (Some ''ECON 1 and 3.'') = Inr [[''ECON 1''], [''ECON 3'']]
   \<and> parse_prereq_raw (Some ''ECON 1 and 3 and 7A'')
       = Inr [[''ECON 1''], [''ECON 3''], [''ECON 7A'']]
   \<and> (parse_loop segs ([], None) = Inr (result, last_dept) \<and> result \<noteq> []
        \<and> extract_course_codes (strip seg) = []
        \<and> rstrip_chars ''.,;'' (strip seg) = ds @ sfx \<and> ds \<noteq> [] \<and> list_all is_digit ds
        \<and> (sfx = [] \<or> length sfx = 1 \<and> list_all is_letter_ic sfx)
      \<longrightarrow> (\<exists>dept rest. py_split (last (last result)) = dept # rest
             \<and> parse_loop (segs @ [seg]) ([], None)
                 = Inr (result @ [[dept @ '' '' @ ds @ sfx]], Some dept)))"
proof -
  have ex1: "parse_prereq_raw (Some ''ECON 1 and 3.'') = Inr [[''ECON 1''], [''ECON 3'']]"
    by (simp add: parser_defs string_op_defs char_class_defs py_split.simps)
  have ex2: "parse_prereq_raw (Some ''ECON 1 and 3 and 7A'')
       = Inr [[''ECON 1''], [''ECON 3''], [''ECON 7A'']]"
    by (simp add: parser_defs string_op_defs char_class_defs py_split.simps)
  have gen: "\<exists>dept rest. py_split (last (last result)) = dept # rest
             \<and> parse_loop (segs @ [seg]) ([], None)
                 = Inr (result @ [[dept @ '' '' @ ds @ sfx]], Some dept)"
    if loop: "parse_loop segs ([], None) = Inr (result, last_dept)" and ne: "result \<noteq> []"
      and ex: "extract_course_codes (strip seg) = []"
      and sh: "rstrip_chars ''.,;'' (strip seg) = ds @ sfx" "ds \<noteq> []" "list_all is_digit ds"
         "sfx = [] \<or> length sfx = 1 \<and> list_all is_letter_ic sfx"
  proof -
    have "dept_tracked ([], None)" by (simp add: dept_tracked_def)
    then have "dept_tracked (result, last_dept)"
      using loop by (rule parse_loop_tracked)
    then obtain dept rest where d: "py_split (last (last result)) = dept # rest"
      and ld: "last_dept = Some dept"
      using ne by (auto simp: dept_tracked_def split: list.splits)
    have "parse_loop (segs @ [seg]) ([], None) = parse_segment (result, Some dept) seg"
      by (simp add: parse_loop_snoc loop ld)
    also have "\<dots> = Inr (result @ [[dept @ '' '' @ ds @ sfx]], Some dept)"
      using d ex sh by (rule parse_segment_shorthand)
    finally show ?thesis using d by blast
  qed
  show ?thesis
    using ex1 ex2 gen by blast
qed

theorem shorthand_carry_over_witness:
  "parse_loop [''ECON 1''] ([], None) = Inr ([[''ECON 1'']], Some ''ECON'')
   \<and> extract_course_codes (strip ''3a.'') = []
   \<and> rstrip_chars ''.,;'' (strip ''3a.'') = ''3'' @ ''a''
   \<and> parse_loop ([''ECON 1''] @ [''3a.'']) ([], None)
        = Inr ([[''ECON 1'']] @ [[''ECON'' @ '' '' @ ''3'' @ ''a'']], Some ''ECON'')"
proof -
  have 1: "parse_loop [''ECON 1''] ([], None) = Inr ([[''ECON 1'']], Some ''ECON'')"
    by (simp add: parser_defs string_op_defs char_class_defs py_split.simps)
  have 2: "extract_course_codes (strip ''3a.'') = []"
    by (simp add: parser_defs string_op_defs char_class_defs)
  have 3: "rstrip_chars ''.,;'' (strip ''3a.'') = ''3'' @ ''a''"
    by (simp add: string_op_defs char_class_defs)
  have 4: "list_all is_digit ''3''" "length ''a'' = 1 \<and> list_all is_letter_ic ''a''"
    by (simp_all add: char_class_defs)
  have 5: "py_split (last (last [[''ECON 1'']])) = ''ECON'' # [''1'']"
    by (simp add: py_split.simps char_class_defs)
  from shorthand_carry_over
    [of "[''ECON 1'']" "[[''ECON 1'']]" "Some ''ECON''" "''3a.''" "''3''" "''a''"]
  have "\<exists>dept rest. py_split (last (last [[''ECON 1'']])) = dept # rest
             \<and> parse_loop ([''ECON 1''] @ [''3a.'']) ([], None)
                 = Inr ([[''ECON 1'']] @ [[dept @ '' '' @ ''3'' @ ''a'']], Some dept)"
    using 1 2 3 4 by simp
  then show ?thesis
    using 1 2 3 5 by auto
qed

text \<open>
  C4. Truncation law: whatever stands at and after the first semicolon of the sentence
  has no effect on the result. For a text \<open>x\<close> with no semicolon and any text \<open>y\<close>, the
  sentence \<open>x;y\<close> parses as \<open>x\<close> does; in particular \<open>A and B; ignored clause\<close> parses as
  \<open>A and B\<close> does, for \<open>A\<close> and \<open>B\<close> free of semicolons.
\<close>

theorem parse_truncation_law:
  "(CHR '';'' \<notin> set x \<longrightarrow>
      parse_prereq_raw (Some (x @ '';'' @ y)) = parse_prereq_raw (Some x))
   \<and> (CHR '';'' \<notin> set A \<and> CHR '';'' \<notin> set B \<longrightarrow>
      parse_prereq_raw (Some (A @ '' and '' @ B @ ''; ignored clause''))
        = parse_prereq_raw (Some (A @ '' and '' @ B)))"
proof -
  have main: "parse_prereq_raw (Some (x @ CHR '';'' # y)) = parse_prereq_raw (Some x)"
    if nosemi_x: "CHR '';'' \<notin> set x" for x y
  proof -
    let ?pipeline = "\<lambda>text.
      (case parse_loop (re_split_and [] (collapse_ws text)) ([], None) of
         Inl e \<Rightarrow> Inl e
       | Inr (result, last_dept) \<Rightarrow> Inr result)"
    have semi: "CHR '';'' \<in> set (strip (x @ CHR '';'' # y))"
      by (simp add: strip_around_semicolon)
    have lhs: "parse_prereq_raw (Some (x @ CHR '';'' # y)) = ?pipeline (strip x)"
      using semi
      by (simp add: parse_prereq_raw_def strip_nonempty_raw truncated_text [OF nosemi_x] Let_def)
    have nosemi: "CHR '';'' \<notin> set (strip x)"
      using nosemi_x set_strip by blast
    show ?thesis
    proof (cases "strip x = []")
      case True
      then have "parse_prereq_raw (Some x) = Inr []"
        by (simp add: parse_prereq_raw_def)
      moreover have "?pipeline (strip x) = Inr []"
        by (simp add: True parse_segment_blank)
      ultimately show ?thesis using lhs by simp
    next
      case False
      then have "x \<noteq> []"
        by (auto simp: strip_def lstrip_def rstrip_def)
      then have "parse_prereq_raw (Some x) = ?pipeline (strip x)"
        using False nosemi by (simp add: parse_prereq_raw_def Let_def)
      then show ?thesis using lhs by simp
    qed
  qed
  have "parse_prereq_raw (Some ((A @ '' and '' @ B) @ CHR '';'' # '' ignored clause''))
        = parse_prereq_raw (Some (A @ '' and '' @ B))"
    if "CHR '';'' \<notin> set A \<and> CHR '';'' \<notin> set B"
    using that by (intro main) simp
  then show ?thesis
    using main [of x y] by simp
qed

theorem parse_truncation_law_witness:
  "parse_prereq_raw (Some (''CSE 12 and CSE 15L'' @ '';'' @ '' credit not given for both''))
     = parse_prereq_raw (Some ''CSE 12 and CSE 15L'')
   \<and> parse_prereq_raw (Some (''CSE 12'' @ '' and '' @ ''CSE 15L'' @ ''; ignored clause''))
     = parse_prereq_raw (Some (''CSE 12'' @ '' and '' @ ''CSE 15L''))"
  using parse_truncation_law
    [of "''CSE 12 and CSE 15L''" "'' credit not given for both''" "''CSE 12''" "''CSE 15L''"]
  by simp




text \<open>
  C6. Edge filtering. An edge is emitted exactly when its source stands in the group of
  its index in the structure of a course with the target's code, and the source is a key
  of the catalog; a code that is no key gives no edge and no error. In the example
  catalog, \<open>CSE 99\<close> is dropped and the one edge from \<open>CSE 8B\<close> remains.
\<close>

theorem edge_filtering:
  "(e \<in> set (build_prereq_edges courses) \<longleftrightarrow>
      (\<exists>c \<in> set courses. target e = code c
          \<and> or_group_index e < length (structured_or_empty c)
          \<and> source e \<in> set (structured_or_empty c ! or_group_index e)
          \<and> source e \<in> set (map code courses)))
   \<and> build_prereq_edges
        [\<lparr>code = ''CSE 12'', prereq_raw = None, prereq_structured = Some [[''CSE 8B'', ''CSE 99'']]\<rparr>,
         \<lparr>code = ''CSE 8B'', prereq_raw = None, prereq_structured = None\<rparr>]
      = [\<lparr>source = ''CSE 8B'', target = ''CSE 12'', or_group_index = 0\<rparr>]"
proof -
  have "e \<in> set (build_prereq_edges courses) \<longleftrightarrow>
      (\<exists>c \<in> set courses. target e = code c
          \<and> or_group_index e < length (structured_or_empty c)
          \<and> source e \<in> set (structured_or_empty c ! or_group_index e)
          \<and> source e \<in> set (map code courses))"
    unfolding build_prereq_edges_def edges_of_courses_mem edges_of_structured_mem
      code_to_course_known by simp
  moreover have "build_prereq_edges
        [\<lparr>code = ''CSE 12'', prereq_raw = None, prereq_structured = Some [[''CSE 8B'', ''CSE 99'']]\<rparr>,
         \<lparr>code = ''CSE 8B'', prereq_raw = None, prereq_structured = None\<rparr>]
      = [\<lparr>source = ''CSE 8B'', target = ''CSE 12'', or_group_index = 0\<rparr>]"
    by (simp add: build_prereq_edges_def code_to_course_def structured_or_empty_def)
  ultimately show ?thesis by blast
qed

theorem edge_filtering_witness:
  "\<lparr>source = ''CSE 8B'', target = ''CSE 12'', or_group_index = 0\<rparr>
     \<in> set (build_prereq_edges
        [\<lparr>code = ''CSE 12'', prereq_raw = None, prereq_structured = Some [[''CSE 8B'', ''CSE 99'']]\<rparr>,
         \<lparr>code = ''CSE 8B'', prereq_raw = None, prereq_structured = None\<rparr>])
   \<and> \<lparr>source = ''CSE 99'', target = ''CSE 12'', or_group_index = 0\<rparr>
     \<notin> set (build_prereq_edges
        [\<lparr>code = ''CSE 12'', prereq_raw = None, prereq_structured = Some [[''CSE 8B'', ''CSE 99'']]\<rparr>,
         \<lparr>code = ''CSE 8B'', prereq_raw = None, prereq_structured = None\<rparr>])"
proof -
  let ?cs = "[\<lparr>code = ''CSE 12'', prereq_raw = None, prereq_structured = Some [[''CSE 8B'', ''CSE 99'']]\<rparr>,
         \<lparr>code = ''CSE 8B'', prereq_raw = None, prereq_structured = None\<rparr>]"
  have 1: "\<lparr>source = ''CSE 8B'', target = ''CSE 12'', or_group_index = 0\<rparr>
     \<in> set (build_prereq_edges ?cs)"
    using edge_filtering [of "\<lparr>source = ''CSE 8B'', target = ''CSE 12'', or_group_index = 0\<rparr>" ?cs]
    by (simp add: structured_or_empty_def)
  have 2: "\<lparr>source = ''CSE 99'', target = ''CSE 12'', or_group_index = 0\<rparr>
     \<notin> set (build_prereq_edges ?cs)"
    using edge_filtering [of "\<lparr>source = ''CSE 99'', target = ''CSE 12'', or_group_index = 0\<rparr>" ?cs]
    by (simp add: structured_or_empty_def)
  show ?thesis using 1 2 by (intro conjI)
qed

text \<open>
  C7. Empty/absent law: an absent sentence, the empty sentence and every sentence made of
  whitespace only give the empty structure, as a normal result (\<open>Inr\<close>), not an error.
\<close>

theorem parse_empty_absent_law:
  "parse_prereq_raw None = Inr [] \<and> parse_prereq_raw (Some []) = Inr []
   \<and> (list_all is_space s \<longrightarrow> parse_prereq_raw (Some s) = Inr [])"
  by (simp add: parse_prereq_raw_def strip_blank)

theorem parse_empty_absent_law_witness:
  "parse_prereq_raw None = Inr [] \<and> parse_prereq_raw (Some []) = Inr []
   \<and> list_all is_space ''   '' \<and> parse_prereq_raw (Some ''   '') = Inr []"
  using parse_empty_absent_law [of "''   ''"]
  by (simp add: is_space_def)

text \<open>
  C8. The list returned by \<open>extract_course_codes\<close> has no repeated code: it is the list
  of the matches of the text with only the first occurrence of each code kept, in the
  order of these first occurrences (the normalisation applied to a match leaves it as it
  is, and no match is empty).
\<close>

theorem extract_no_duplicates:
  "distinct (extract_course_codes t)
   \<and> extract_course_codes t = keep_first (finditer_code t)
   \<and> extract_course_codes t =
       keep_first (filter (\<lambda>c. c \<noteq> [])
         (map (\<lambda>m. sub_trailing_punct (strip m)) (finditer_code t)))"
  using extract_eq_keep_first [of t]
  by (simp add: extract_course_codes_def collect_codes_keep_first distinct_keep_first)

theorem extract_no_duplicates_witness:
  "distinct (extract_course_codes ''CSE 12, MATH 20A or CSE 12'')
   \<and> extract_course_codes ''CSE 12, MATH 20A or CSE 12'' = [''CSE 12'', ''MATH 20A'']
   \<and> finditer_code ''CSE 12, MATH 20A or CSE 12'' = [''CSE 12'', ''MATH 20A'', ''CSE 12'']"
proof -
  have m: "finditer_code ''CSE 12, MATH 20A or CSE 12'' = [''CSE 12'', ''MATH 20A'', ''CSE 12'']"
    by (simp add: match_code_def match_code_with_def char_class_defs)
  have "extract_course_codes ''CSE 12, MATH 20A or CSE 12''
      = keep_first (finditer_code ''CSE 12, MATH 20A or CSE 12'')"
    using extract_no_duplicates [of "''CSE 12, MATH 20A or CSE 12''"] by blast
  then have e: "extract_course_codes ''CSE 12, MATH 20A or CSE 12'' = [''CSE 12'', ''MATH 20A'']"
    unfolding m by simp
  have d: "distinct (extract_course_codes ''CSE 12, MATH 20A or CSE 12'')"
    unfolding e by simp
  show ?thesis
    using d e m by (intro conjI)
qed

text \<open>
  C9. The parser is total and never raises: every absent or present sentence gives a
  structure. A segment with no extracted codes that does not match the shorthand rule
  (its stripped form is no standalone number, or no department is carried over) leaves
  the result and the department as they are; so \<open>consent of instructor\<close> gives the
  empty structure.
\<close>

theorem parse_total_drops_non_course:
  "(\<exists>result. parse_prereq_raw raw = Inr result)
   \<and> (extract_course_codes (strip seg) = []
        \<and> \<not> standalone_num_match (rstrip_chars ''.,;'' (strip seg))
      \<longrightarrow> parse_segment (result, last_dept) seg = Inr (result, last_dept))
   \<and> (extract_course_codes (strip seg) = []
      \<longrightarrow> parse_segment (result, None) seg = Inr (result, None))
   \<and> parse_prereq_raw (Some ''consent of instructor'') = Inr []"
proof -
  have "\<exists>result. parse_prereq_raw raw = Inr result"
    using parse_prereq_raw_ok [of raw] by blast
  moreover have "parse_prereq_raw (Some ''consent of instructor'') = Inr []"
    by (simp add: parser_defs string_op_defs char_class_defs)
  ultimately show ?thesis
    by (simp add: parse_segment_unfold split: option.splits)
qed

theorem parse_total_drops_non_course_witness:
  "extract_course_codes (strip ''consent of instructor'') = []
   \<and> \<not> standalone_num_match (rstrip_chars ''.,;'' (strip ''consent of instructor''))
   \<and> parse_segment ([[''CSE 12'']], Some ''CSE'') ''consent of instructor''
       = Inr ([[''CSE 12'']], Some ''CSE'')
   \<and> parse_segment ([[''CSE 12'']], None) ''consent of instructor''
       = Inr ([[''CSE 12'']], None)
   \<and> parse_prereq_raw (Some ''CSE 12 and consent of instructor'') = Inr [[''CSE 12'']]"
proof -
  have 1: "extract_course_codes (strip ''consent of instructor'') = []"
    by (simp add: parser_defs string_op_defs char_class_defs)
  have 2: "\<not> standalone_num_match (rstrip_chars ''.,;'' (strip ''consent of instructor''))"
    by (simp add: parser_defs string_op_defs char_class_defs)
  have 3: "parse_prereq_raw (Some ''CSE 12 and consent of instructor'') = Inr [[''CSE 12'']]"
    by (simp add: parser_defs string_op_defs char_class_defs py_split.simps)
  show ?thesis
    using parse_total_drops_non_course
      [of "Some ''CSE 12 and consent of instructor''" "''consent of instructor''"
          "[[''CSE 12'']]" "Some ''CSE''"]
      1 2 3
    by simp
qed

text \<open>
  C10. A run of more than four capitals before the space is not rejected as a whole: the
  matcher fails at the head of \<open>ABCDE 101\<close> and succeeds one character later, so the code
  returned is built from the last four letters of the run.
\<close>

theorem extract_long_department_run:
  "extract_course_codes ''ABCDE 101'' = [''BCDE 101'']
   \<and> match_code ''ABCDE 101'' = None
   \<and> match_code ''BCDE 101'' = Some (''BCDE 101'', [])"
  by (simp add: parser_defs string_op_defs char_class_defs)

end
